theory Spec2Isabelle
  imports Complex_Main
begin

section \<open>Paginated substring search over line-oriented data files\<close>

text \<open>
  A shallow embedding of the file search of the OSRS data server: \<open>searchFile\<close>
  (normalise the term, check that the file exists, scan it line by line, paginate the
  matches, format the selected page), \<open>getFileLineCount\<close>, \<open>getFileDetails\<close> and the
  argument schema \<open>FileSearchSchema\<close>.

  Conventions of the model.
  \<^item> A JavaScript string is a \<open>string\<close>, the list of its UTF-16 code units. A \<open>char\<close> is
    a code unit from 0 to 255 (Basic Latin and Latin-1 Supplement; the data files are
    ASCII), and the string primitives below are the JavaScript ones on every such
    string.
  \<^item> A JavaScript number that holds an integer (a page, a page size, a line number, a
    count) is an \<open>int\<close>. \<open>Math.ceil(a / b)\<close> is the ceiling of the quotient over the
    reals, which is what the floating point computation yields for every array length
    and every positive page size.
  \<^item> A rejected promise and a thrown exception are \<open>Inl\<close> of an \<open>error\<close>.
\<close>

subsection \<open>String primitives of the platform\<close>

text \<open>
  The regular expression class \<open>\s\<close>: the white space and line terminators of the
  language. Among the code units from 0 to 255 these are TAB, LF, VT, FF, CR, SPACE and
  the no-break space U+00A0 (U+0085 is not in the class).
\<close>

definition isspace :: "char \<Rightarrow> bool" where
  "isspace c \<longleftrightarrow> c = CHR 0x09 \<or> c = CHR 0x0A \<or> c = CHR 0x0B \<or> c = CHR 0x0C
     \<or> c = CHR 0x0D \<or> c = CHR 0x20 \<or> c = CHR 0xA0"

text \<open>
  \<open>String.prototype.toLowerCase\<close>. Among the code units from 0 to 255 the letters with a
  lower-case mapping are A to Z (U+0041 to U+005A), U+00C0 to U+00D6 and U+00D8 to
  U+00DE; each goes to the code unit 0x20 above it. Every other code unit, U+00D7
  (multiplication sign) and U+00DF (sharp s) among them, is unchanged, and no mapping
  depends on the neighbouring characters.
\<close>

definition lowerChar :: "char \<Rightarrow> char" where
  "lowerChar c =
     (let n = (of_char c :: nat) in
      if (0x41 \<le> n \<and> n \<le> 0x5A) \<or> (0xC0 \<le> n \<and> n \<le> 0xD6) \<or> (0xD8 \<le> n \<and> n \<le> 0xDE)
      then char_of (n + 0x20)
      else c)"

definition toLowerCase :: "string \<Rightarrow> string" where
  "toLowerCase s = map lowerChar s"

text \<open>\<open>String.prototype.startsWith\<close> and \<open>String.prototype.includes\<close>.\<close>

fun startsWith :: "string \<Rightarrow> string \<Rightarrow> bool" where
  "startsWith s [] = True"
| "startsWith [] (t # ts) = False"
| "startsWith (c # cs) (t # ts) = (c = t \<and> startsWith cs ts)"

fun str_includes :: "string \<Rightarrow> string \<Rightarrow> bool" where
  "str_includes [] t = (t = [])"
| "str_includes (c # cs) t = (startsWith (c # cs) t \<or> str_includes cs t)"

text \<open>
  \<open>String.prototype.replace\<close> with a string pattern: only the first occurrence of the
  pattern is replaced. (The replacement used by the program has no \<open>$\<close> pattern.)
\<close>

fun replace :: "string \<Rightarrow> string \<Rightarrow> string \<Rightarrow> string" where
  "replace [] pat rep = (if pat = [] then rep else [])"
| "replace (c # cs) pat rep =
     (if startsWith (c # cs) pat then rep @ drop (length pat) (c # cs)
      else c # replace cs pat rep)"

text \<open>
  \<open>String.prototype.split\<close> with a one-character separator: a left-to-right scan that
  closes the current piece at every separator; the last piece is always emitted.
\<close>

fun split_from :: "string \<Rightarrow> string \<Rightarrow> char \<Rightarrow> string list" where
  "split_from cur [] sep = [cur]"
| "split_from cur (c # cs) sep =
     (if c = sep then cur # split_from [] cs sep else split_from (cur @ [c]) cs sep)"

definition split_char :: "string \<Rightarrow> char \<Rightarrow> string list" where
  "split_char s sep = split_from [] s sep"

text \<open>
  \<open>String.prototype.split\<close> with the regular expression \<open>/\s+/\<close>: the scan closes the
  current piece at the start of every maximal run of white space and resumes after the
  run; the last piece is always emitted, so a string that starts (ends) with white space
  has an empty first (last) piece, and the empty string has the single piece \<open>''''\<close>.
\<close>

function split_ws_from :: "string \<Rightarrow> string \<Rightarrow> string list" where
  "split_ws_from cur [] = [cur]"
| "split_ws_from cur (c # cs) =
     (if isspace c then cur # split_ws_from [] (dropWhile isspace cs)
      else split_ws_from (cur @ [c]) cs)"
  by pat_completeness auto

termination
  by (relation "measure (\<lambda>(cur, s). length s)")
     (auto simp: le_imp_less_Suc length_dropWhile_le)

definition split_ws :: "string \<Rightarrow> string list" where
  "split_ws s = split_ws_from [] s"

text \<open>\<open>Array.prototype.join\<close>.\<close>

fun join :: "string list \<Rightarrow> string \<Rightarrow> string" where
  "join [] sep = []"
| "join [p] sep = p"
| "join (p # q # ps) sep = p @ sep @ join (q # ps) sep"

text \<open>
  \<open>Array.prototype.slice(start, end)\<close> on integer arguments: a negative index counts
  from the end, both indices are clamped to the array, and an empty range gives \<open>[]\<close>.
\<close>

definition slice :: "'a list \<Rightarrow> int \<Rightarrow> int \<Rightarrow> 'a list" where
  "slice xs startIndex endIndex =
     (let len = int (length xs);
          k = (if startIndex < 0 then max (len + startIndex) 0 else min startIndex len);
          final = (if endIndex < 0 then max (len + endIndex) 0 else min endIndex len)
      in take (nat (final - k)) (drop (nat k) xs))"

text \<open>
  The \<open>line\<close> events of a \<open>readline\<close> interface with \<open>crlfDelay: Infinity\<close> over the content
  of a file: a line ends at \<open>\n\<close>, at \<open>\r\n\<close> or at a lone \<open>\r\<close>; what follows the last
  terminator is a line only when it is not empty.
\<close>

function readline_from :: "string \<Rightarrow> string \<Rightarrow> string list" where
  "readline_from cur [] = (if cur = [] then [] else [cur])"
| "readline_from cur (c # cs) =
     (if c = CHR 0x0A then cur # readline_from [] cs
      else if c = CHR 0x0D then
        cur # readline_from [] (if cs \<noteq> [] \<and> hd cs = CHR 0x0A then tl cs else cs)
      else readline_from (cur @ [c]) cs)"
  by pat_completeness auto

termination
  by (relation "measure (\<lambda>(cur, s). length s)") auto

definition readline_lines :: "string \<Rightarrow> string list" where
  "readline_lines s = readline_from [] s"

subsection \<open>The file system\<close>

datatype error = FileNotFound string | IOError string | ZodError

record stats =
  st_size :: nat
  birthtime :: nat
  mtime :: nat

text \<open>
  A file: its content, the error that reading it raises (if any), and what \<open>statSync\<close>
  returns (\<open>None\<close> when it throws). A file system maps a path to the file there.
\<close>

record fileNode =
  content :: string
  readError :: "string option"
  stat :: "stats option"

type_synonym filesystem = "string \<Rightarrow> fileNode option"

definition existsSync :: "filesystem \<Rightarrow> string \<Rightarrow> bool" where
  "existsSync fs filePath \<longleftrightarrow> fs filePath \<noteq> None"

text \<open>\<open>fs.readFileSync(filePath, 'utf8')\<close>: the content, or the error thrown (\<open>Inl\<close>).\<close>

definition readFileSync :: "filesystem \<Rightarrow> string \<Rightarrow> string + string" where
  "readFileSync fs filePath =
     (case fs filePath of
        None \<Rightarrow> Inl ''ENOENT''
      | Some f \<Rightarrow> (case readError f of Some e \<Rightarrow> Inl e | None \<Rightarrow> Inr (content f)))"

text \<open>\<open>fs.statSync(filePath)\<close>: the stats, or \<open>None\<close> when it throws.\<close>

definition statSync :: "filesystem \<Rightarrow> string \<Rightarrow> stats option" where
  "statSync fs filePath = (case fs filePath of None \<Rightarrow> None | Some f \<Rightarrow> stat f)"

text \<open>
  What the \<open>readline\<close> interface over \<open>fs.createReadStream(filePath)\<close> emits: an \<open>error\<close>
  event with the error of the stream (\<open>Inl\<close>), or the \<open>line\<close> events of the content
  followed by \<open>close\<close> (\<open>Inr\<close> of the lines).
\<close>

definition lineEvents :: "filesystem \<Rightarrow> string \<Rightarrow> string + string list" where
  "lineEvents fs filePath =
     (case fs filePath of
        None \<Rightarrow> Inl ''ENOENT''
      | Some f \<Rightarrow>
          (case readError f of Some e \<Rightarrow> Inl e | None \<Rightarrow> Inr (readline_lines (content f))))"

text \<open>\<open>path.join\<close> of a directory and a plain file name.\<close>

definition path_join :: "string \<Rightarrow> string \<Rightarrow> string" where
  "path_join dir filename = dir @ ''/'' @ filename"

subsection \<open>The search: scan, paginate, format\<close>

record MatchRecord =
  line :: string
  lineNumber :: int

text \<open>
  An element of \<open>formattedResults\<close>: the match itself, or the match spread into an object
  that also has the fields \<open>id\<close>, \<open>value\<close> and \<open>formatted\<close>.
\<close>

datatype FormattedRecord =
    Plain (matchOf: MatchRecord)
  | KeyValue (matchOf: MatchRecord) (idOf: string) (valueOf: string) (formattedOf: string)

record Pagination =
  page :: int
  pageSize :: int
  totalResults :: int
  totalPages :: int
  hasNextPage :: bool
  hasPreviousPage :: bool

record PageResult =
  results :: "FormattedRecord list"
  pagination :: Pagination

text \<open>The term as the scan uses it: \<open>searchTerm.replace(" ", "_")\<close>.\<close>

definition normalizeTerm :: "string \<Rightarrow> string" where
  "normalizeTerm searchTerm = replace searchTerm '' '' ''_''"

text \<open>
  The handler of the \<open>line\<close> event. The state is the pair of the two variables it
  updates, \<open>lineNumber\<close> and \<open>results\<close>.
\<close>

definition on_line :: "string \<Rightarrow> int \<times> MatchRecord list \<Rightarrow> string \<Rightarrow> int \<times> MatchRecord list" where
  "on_line searchTerm st lineText =
     (let lineNo = fst st + 1 in
      if str_includes (toLowerCase lineText) (toLowerCase searchTerm)
      then (lineNo, snd st @ [\<lparr>line = lineText, lineNumber = lineNo\<rparr>])
      else (lineNo, snd st))"

text \<open>The scan: the handler run over the lines in file order, from \<open>lineNumber = 0\<close>.\<close>

definition scanLines :: "string list \<Rightarrow> string \<Rightarrow> MatchRecord list" where
  "scanLines lns searchTerm = snd (foldl (on_line searchTerm) (0, []) lns)"

text \<open>The function mapped over the selected page.\<close>

definition formatRecord :: "MatchRecord \<Rightarrow> FormattedRecord" where
  "formatRecord result =
     (let parts = split_ws (line result) in
      if 2 \<le> length parts then
        (let ident = hd parts;
             val = join (drop 1 parts) '' '' in
         KeyValue result ident val (ident @ [CHR 0x09] @ val))
      else Plain result)"

definition totalPagesOf :: "int \<Rightarrow> int \<Rightarrow> int" where
  "totalPagesOf totalCount pageSz = \<lceil>real_of_int totalCount / real_of_int pageSz\<rceil>"

definition paginatedResults :: "'a list \<Rightarrow> int \<Rightarrow> int \<Rightarrow> 'a list" where
  "paginatedResults res pageNo pageSz =
     (let startIndex = (pageNo - 1) * pageSz;
          endIndex = startIndex + pageSz
      in slice res startIndex endIndex)"

text \<open>The handler of the \<open>close\<close> event, which resolves the promise.\<close>

definition on_close :: "MatchRecord list \<Rightarrow> int \<Rightarrow> int \<Rightarrow> PageResult" where
  "on_close res pageNo pageSz =
     (let totalCount = int (length res);
          pages = totalPagesOf totalCount pageSz;
          formattedResults = map formatRecord (paginatedResults res pageNo pageSz)
      in \<lparr>results = formattedResults,
          pagination = \<lparr>page = pageNo, pageSize = pageSz, totalResults = totalCount,
            totalPages = pages, hasNextPage = (pageNo < pages),
            hasPreviousPage = (pageNo > 1)\<rparr>\<rparr>)"

text \<open>
  \<open>searchFile\<close>. The promise is rejected with \<open>File not found\<close> when the path does not
  exist, and with the stream's error when reading fails; otherwise the \<open>close\<close> handler
  resolves it. The model is the program for \<open>pageSz \<ge> 1\<close>, which the argument schema
  guarantees to both callers.
\<close>

definition searchFile :: "filesystem \<Rightarrow> string \<Rightarrow> string \<Rightarrow> int \<Rightarrow> int \<Rightarrow> error + PageResult" where
  "searchFile fs filePath searchTerm0 pageNo pageSz =
     (let searchTerm = normalizeTerm searchTerm0 in
      if \<not> existsSync fs filePath then Inl (FileNotFound filePath)
      else (case lineEvents fs filePath of
              Inl err \<Rightarrow> Inl (IOError err)
            | Inr lns \<Rightarrow> Inr (on_close (scanLines lns searchTerm) pageNo pageSz)))"

subsection \<open>File details\<close>

definition getFileLineCount :: "filesystem \<Rightarrow> string \<Rightarrow> int" where
  "getFileLineCount fs filePath =
     (case readFileSync fs filePath of
        Inl e \<Rightarrow> 0
      | Inr text \<Rightarrow> int (length (split_char text (CHR 0x0A))))"

text \<open>
  The three shapes of the object \<open>getFileDetails\<close> returns: \<open>{exists: false}\<close>, the
  details (\<open>size\<close>, \<open>lineCount\<close>, \<open>created\<close>, \<open>lastModified\<close>), and
  \<open>{exists: false, error: ...}\<close> from the \<open>catch\<close>.
\<close>

datatype FileDetails =
    NotExists
  | Details (sizeOf: nat) (lineCountOf: int) (createdOf: nat) (lastModifiedOf: nat)
  | DetailsError

definition getFileDetails :: "string \<Rightarrow> filesystem \<Rightarrow> string \<Rightarrow> FileDetails" where
  "getFileDetails dataDir fs filename =
     (let filePath = path_join dataDir filename in
      if \<not> existsSync fs filePath then NotExists
      else (case statSync fs filePath of
              None \<Rightarrow> DetailsError
            | Some st \<Rightarrow>
                Details (st_size st) (getFileLineCount fs filePath) (birthtime st) (mtime st)))"

subsection \<open>The argument schema of the file search tools\<close>

text \<open>
  A JSON value as the schema sees it: a string, a number that is an integer, or anything
  else. An absent property is \<open>None\<close>.
\<close>

datatype jsvalue = JString string | JInteger int | JOther

text \<open>\<open>z.number().int().min(lo)[.max(hi)].optional().default(d)\<close>\<close>

definition parse_int_field :: "jsvalue option \<Rightarrow> int \<Rightarrow> int option \<Rightarrow> int \<Rightarrow> error + int" where
  "parse_int_field v lo hi d =
     (case v of
        None \<Rightarrow> Inr d
      | Some (JInteger n) \<Rightarrow>
          (if n < lo then Inl ZodError
           else (case hi of
                   None \<Rightarrow> Inr n
                 | Some h \<Rightarrow> if h < n then Inl ZodError else Inr n))
      | Some _ \<Rightarrow> Inl ZodError)"

text \<open>
  \<open>FileSearchSchema.parse\<close> on the properties \<open>query\<close>, \<open>page\<close> and \<open>pageSize\<close> of the
  arguments: \<open>query\<close> is any string, \<open>page\<close> an integer from 1 (default 1), \<open>pageSize\<close> an
  integer from 1 to 100 (default 10).
\<close>

definition FileSearchSchema_parse ::
  "jsvalue option \<Rightarrow> jsvalue option \<Rightarrow> jsvalue option \<Rightarrow> error + (string \<times> int \<times> int)" where
  "FileSearchSchema_parse queryArg pageArg pageSizeArg =
     (case queryArg of
        Some (JString q) \<Rightarrow>
          (case parse_int_field pageArg 1 None 1 of
             Inl e \<Rightarrow> Inl e
           | Inr p \<Rightarrow>
               (case parse_int_field pageSizeArg 1 (Some 100) 10 of
                  Inl e \<Rightarrow> Inl e
                | Inr s \<Rightarrow> Inr (q, p, s)))
      | _ \<Rightarrow> Inl ZodError)"

subsection \<open>The specification's notions\<close>

text \<open>
  The white-space-separated tokens of a line, as the specification's words have them:
  the maximal runs of characters that are not white space. They are never empty.
\<close>

fun ws_tokens_from :: "string \<Rightarrow> string \<Rightarrow> string list" where
  "ws_tokens_from cur [] = (if cur = [] then [] else [cur])"
| "ws_tokens_from cur (c # cs) =
     (if isspace c then (if cur = [] then ws_tokens_from [] cs else cur # ws_tokens_from [] cs)
      else ws_tokens_from (cur @ [c]) cs)"

definition ws_tokens :: "string \<Rightarrow> string list" where
  "ws_tokens s = ws_tokens_from [] s"

text \<open>
  The Paginator of the specification, applied to the formatted list: the slice
  \<open>xs[(page-1)*pageSize : (page-1)*pageSize + pageSize]\<close> of a sequence (empty beyond its
  end), \<open>totalPages\<close> the ceiling of \<open>totalResults / pageSize\<close> in integer arithmetic and
  0 for no result, \<open>hasNextPage = page < totalPages\<close>, \<open>hasPreviousPage = page > 1\<close>.
\<close>

definition spec_slice :: "'a list \<Rightarrow> int \<Rightarrow> int \<Rightarrow> 'a list" where
  "spec_slice xs a b = take (nat (b - a)) (drop (nat a) xs)"

definition spec_paginate :: "FormattedRecord list \<Rightarrow> int \<Rightarrow> int \<Rightarrow> PageResult" where
  "spec_paginate xs pageNo pageSz =
     (let n = int (length xs);
          pages = (if n = 0 then 0 else (n + pageSz - 1) div pageSz)
      in \<lparr>results = spec_slice xs ((pageNo - 1) * pageSz) ((pageNo - 1) * pageSz + pageSz),
          pagination = \<lparr>page = pageNo, pageSize = pageSz, totalResults = n,
            totalPages = pages, hasNextPage = (pageNo < pages),
            hasPreviousPage = (pageNo > 1)\<rparr>\<rparr>)"

text \<open>
  The File Search Engine of the specification: the scan, then every match through the
  formatter, then the Paginator.
\<close>

definition spec_search :: "string list \<Rightarrow> string \<Rightarrow> int \<Rightarrow> int \<Rightarrow> PageResult" where
  "spec_search lns searchTerm0 pageNo pageSz =
     spec_paginate (map formatRecord (scanLines lns (normalizeTerm searchTerm0))) pageNo pageSz"

subsection \<open>The data file of the specification's scenarios\<close>

definition scenarioLines :: "string list" where
  "scenarioLines = [''100 Dragon scimitar'', ''101 Dragon longsword'', ''200 Iron dagger'']"

definition scenarioContent :: string where
  "scenarioContent = concat (map (\<lambda>l. l @ [CHR 0x0A]) scenarioLines)"

definition scenarioFile :: fileNode where
  "scenarioFile = \<lparr>content = scenarioContent, readError = None,
                    stat = Some \<lparr>st_size = 57, birthtime = 0, mtime = 0\<rparr>\<rparr>"

definition scenarioFs :: filesystem where
  "scenarioFs filePath = (if filePath = ''data/objtypes.txt'' then Some scenarioFile else None)"

text \<open>The result of the search for \<open>dragon\<close> with page 3 and page size 1.\<close>

definition scenarioPage3 :: PageResult where
  "scenarioPage3 = \<lparr>results = [],
     pagination = \<lparr>page = 3, pageSize = 1, totalResults = 2, totalPages = 2,
       hasNextPage = False, hasPreviousPage = True\<rparr>\<rparr>"

section \<open>Properties of the string primitives\<close>

lemma of_char_lowerChar:
  "(of_char (lowerChar c) :: nat) =
     (let n = of_char c in
      if (65 \<le> n \<and> n \<le> 90) \<or> (192 \<le> n \<and> n \<le> 214) \<or> (216 \<le> n \<and> n \<le> 222)
      then n + 32 else n)"
  by (auto simp: lowerChar_def Let_def)

lemma toLowerCase_code_units:
  "map of_char (toLowerCase l) =
     map (\<lambda>c. let n = (of_char c :: nat) in
        if (65 \<le> n \<and> n \<le> 90) \<or> (192 \<le> n \<and> n \<le> 214) \<or> (216 \<le> n \<and> n \<le> 222)
        then n + 32 else n) l"
  by (simp add: toLowerCase_def of_char_lowerChar comp_def)

lemma isspace_code_units: "isspace c \<longleftrightarrow> of_char c \<in> {9, 10, 11, 12, 13, 32, 160 :: nat}"
  by (cases c) (auto simp: isspace_def)

lemma startsWith_iff: "startsWith s t \<longleftrightarrow> (\<exists>q. s = t @ q)"
  by (induction s t rule: startsWith.induct) auto

lemma str_includes_iff: "str_includes s t \<longleftrightarrow> (\<exists>p q. s = p @ t @ q)"
proof (induction s)
  case Nil
  then show ?case by auto
next
  case (Cons c cs)
  show ?case
  proof
    assume "str_includes (c # cs) t"
    then consider "startsWith (c # cs) t" | "str_includes cs t" by auto
    then show "\<exists>p q. c # cs = p @ t @ q"
    proof cases
      case 1
      then obtain q where "c # cs = t @ q" using startsWith_iff by blast
      then have "c # cs = [] @ t @ q" by simp
      then show ?thesis by blast
    next
      case 2
      then obtain p q where "cs = p @ t @ q" using Cons.IH by blast
      then have "c # cs = (c # p) @ t @ q" by simp
      then show ?thesis by blast
    qed
  next
    assume "\<exists>p q. c # cs = p @ t @ q"
    then obtain p q where pq: "c # cs = p @ t @ q" by blast
    show "str_includes (c # cs) t"
    proof (cases p)
      case Nil
      then have "startsWith (c # cs) t" using pq startsWith_iff by auto
      then show ?thesis by simp
    next
      case (Cons a p')
      then have "cs = p' @ t @ q" using pq by simp
      then have "str_includes cs t" using Cons.IH by blast
      then show ?thesis by simp
    qed
  qed
qed

lemma str_includes_empty: "str_includes s []"
  by (cases s) simp_all

lemma replace_no_occurrence: "a \<notin> set s \<Longrightarrow> replace s [a] rep = s"
  by (induction s) auto

lemma replace_first_occurrence: "a \<notin> set p \<Longrightarrow> replace (p @ a # s) [a] rep = p @ rep @ s"
  by (induction p) auto

lemma length_split_from: "length (split_from cur s sep) = count_list s sep + 1"
  by (induction s arbitrary: cur) auto

lemma foldl_on_line:
  "foldl (on_line t) (k, acc) lns =
     (k + int (length lns),
      acc @ map (\<lambda>(n, l). \<lparr>line = l, lineNumber = n\<rparr>)
              (filter (\<lambda>(n, l). str_includes (toLowerCase l) (toLowerCase t))
                 (zip [k + 1..k + int (length lns)] lns)))"
proof (induction lns arbitrary: k acc)
  case Nil
  then show ?case by simp
next
  case (Cons l lns)
  have e: "k + int (length (l # lns)) = (k + 1) + int (length lns)" by simp
  have up: "[k + 1..(k + 1) + int (length lns)] = (k + 1) # [(k + 1) + 1..(k + 1) + int (length lns)]"
    by (rule upto_rec1) simp
  have step: "on_line t (k, acc) l =
      (k + 1, if str_includes (toLowerCase l) (toLowerCase t)
              then acc @ [\<lparr>line = l, lineNumber = k + 1\<rparr>] else acc)"
    by (simp add: on_line_def Let_def)
  have "foldl (on_line t) (k, acc) (l # lns) =
      foldl (on_line t) (k + 1, if str_includes (toLowerCase l) (toLowerCase t)
              then acc @ [\<lparr>line = l, lineNumber = k + 1\<rparr>] else acc) lns"
    by (simp only: foldl_Cons step)
  also have "\<dots> = (k + 1 + int (length lns),
      (if str_includes (toLowerCase l) (toLowerCase t)
              then acc @ [\<lparr>line = l, lineNumber = k + 1\<rparr>] else acc) @ map (\<lambda>(n, l). \<lparr>line = l, lineNumber = n\<rparr>)
              (filter (\<lambda>(n, l). str_includes (toLowerCase l) (toLowerCase t))
                 (zip [k + 1 + 1..k + 1 + int (length lns)] lns)))"
    by (rule Cons.IH)
  finally show ?case
    unfolding e up by simp
qed

lemma scanLines_eq:
  "scanLines lns t =
     map (\<lambda>(n, l). \<lparr>line = l, lineNumber = n\<rparr>)
       (filter (\<lambda>(n, l). str_includes (toLowerCase l) (toLowerCase t))
          (zip [1..int (length lns)] lns))"
  by (simp add: scanLines_def foldl_on_line)

lemma sorted_wrt_map_filter_zip_upto:
  "sorted_wrt (<) (map fst (filter P (zip [i..j] (xs :: 'a list))))"
proof -
  have "sorted_wrt (<) [i..j]" by (simp add: sorted_wrt_upto)
  then have "sorted_wrt (<) (map fst (zip [i..j] xs))"
    by (metis map_fst_zip_take sorted_wrt_take)
  then show ?thesis
    by (simp add: sorted_wrt_map sorted_wrt_filter)
qed

lemma lineNumber_scanLines:
  "map lineNumber (scanLines lns t) =
     map fst (filter (\<lambda>(n, l). str_includes (toLowerCase l) (toLowerCase t))
          (zip [1..int (length lns)] lns))"
  by (simp add: scanLines_eq case_prod_beta comp_def)

lemma length_filter_zip_snd:
  "length xs = length ys \<Longrightarrow> length (filter (\<lambda>(n, l). P l) (zip xs ys)) = length (filter P ys)"
  by (induction xs ys rule: list_induct2) auto

lemma length_scanLines:
  "length (scanLines lns t) = length (filter (\<lambda>l. str_includes (toLowerCase l) (toLowerCase t)) lns)"
  by (simp add: scanLines_eq length_filter_zip_snd)

section \<open>Properties of the pagination arithmetic\<close>

lemma slice_nonneg:
  assumes "0 \<le> a" "0 \<le> b"
  shows "slice xs a (a + b) = take (nat b) (drop (nat a) xs)"
proof (cases "a < int (length xs)")
  case True
  then show ?thesis using assms
    by (auto simp: slice_def Let_def min_def nat_diff_distrib nat_add_distrib)
next
  case False
  then show ?thesis using assms
    by (auto simp: slice_def Let_def min_def)
qed

lemma paginatedResults_take_drop:
  assumes "1 \<le> p" "1 \<le> s"
  shows "paginatedResults xs p s = take (nat s) (drop (nat ((p - 1) * s)) xs)"
proof -
  have a: "0 \<le> (p - 1) * s" using assms by simp
  have b: "0 \<le> s" using assms by simp
  show ?thesis
    unfolding paginatedResults_def Let_def by (rule slice_nonneg [OF a b])
qed

lemma totalPagesOf_lower:
  assumes "1 \<le> s"
  shows "(totalPagesOf n s - 1) * s < n"
proof -
  have sp: "0 < real_of_int s" using assms by simp
  have "(of_int \<lceil>real_of_int n / real_of_int s\<rceil> - 1) * real_of_int s < real_of_int n"
    by (rule ceiling_divide_lower [OF sp])
  then have "real_of_int ((totalPagesOf n s - 1) * s) < real_of_int n"
    by (simp add: totalPagesOf_def)
  then show ?thesis by (simp only: of_int_less_iff)
qed

lemma totalPagesOf_upper:
  assumes "1 \<le> s"
  shows "n \<le> totalPagesOf n s * s"
proof -
  have sp: "0 < real_of_int s" using assms by simp
  have "real_of_int n \<le> of_int \<lceil>real_of_int n / real_of_int s\<rceil> * real_of_int s"
    by (rule ceiling_divide_upper [OF sp])
  then have "real_of_int n \<le> real_of_int (totalPagesOf n s * s)"
    by (simp add: totalPagesOf_def)
  then show ?thesis by (simp only: of_int_le_iff)
qed

lemma totalPagesOf_div:
  assumes "1 \<le> s"
  shows "totalPagesOf n s = (n + s - 1) div s"
proof -
  define T where "T = totalPagesOf n s"
  define r where "r = n + s - 1 - T * s"
  have lo: "(T - 1) * s < n" unfolding T_def by (rule totalPagesOf_lower [OF assms])
  have hi: "n \<le> T * s" unfolding T_def by (rule totalPagesOf_upper [OF assms])
  have r0: "0 \<le> r" using lo by (simp add: r_def algebra_simps)
  have r1: "r < s" using hi by (simp add: r_def algebra_simps)
  have "n + s - 1 = T * s + r" by (simp add: r_def)
  then have "(n + s - 1) div s = (T * s + r) div s" by simp
  also have "\<dots> = T + r div s" using assms by simp
  also have "\<dots> = T" using r0 r1 by simp
  finally show ?thesis by (simp add: T_def)
qed

lemma totalPagesOf_zero: "totalPagesOf 0 s = 0"
  by (simp add: totalPagesOf_def)

lemma totalPagesOf_nonneg:
  assumes "1 \<le> s" "0 \<le> n"
  shows "0 \<le> totalPagesOf n s"
proof (rule ccontr)
  assume "\<not> 0 \<le> totalPagesOf n s"
  then have "totalPagesOf n s \<le> - 1" by simp
  then have "totalPagesOf n s * s \<le> - 1 * s" using assms by (intro mult_right_mono) auto
  then show False using totalPagesOf_upper [OF assms(1), of n] assms by simp
qed

lemma concat_pages_nat:
  "concat (map (\<lambda>k. take s (drop (k * s) xs)) [0..<n]) = take (n * s) xs"
proof (induction n)
  case 0
  then show ?case by simp
next
  case (Suc n)
  have "Suc n * s = n * s + s" by simp
  then have "take (Suc n * s) xs = take (n * s) xs @ take s (drop (n * s) xs)"
    by (simp only: take_add)
  then show ?case using Suc by simp
qed

lemma upto_1_as_map: "[1..int n] = map (\<lambda>k. int k + 1) [0..<n]"
proof (induction n)
  case 0
  then show ?case by simp
next
  case (Suc n)
  have "[1..int (Suc n)] = [1..int (Suc n) - 1] @ [int (Suc n)]"
    by (rule upto_rec2) simp
  then show ?case using Suc by simp
qed

lemma concat_pages:
  assumes "1 \<le> s"
  shows "concat (map (\<lambda>p. paginatedResults xs p s) [1..totalPagesOf (int (length xs)) s]) = xs"
proof -
  define P where "P = totalPagesOf (int (length xs)) s"
  have P0: "0 \<le> P" unfolding P_def using assms by (intro totalPagesOf_nonneg) auto
  have up: "[1..P] = map (\<lambda>k. int k + 1) [0..<nat P]"
    using upto_1_as_map [of "nat P"] P0 by simp
  have pg: "paginatedResults xs (int k + 1) s = take (nat s) (drop (k * nat s) xs)" for k
  proof -
    have "nat (int k * s) = k * nat s" by (simp add: nat_mult_distrib)
    then show ?thesis using assms paginatedResults_take_drop [of "int k + 1" s xs] by simp
  qed
  have "concat (map (\<lambda>p. paginatedResults xs p s) [1..P]) =
        concat (map (\<lambda>k. take (nat s) (drop (k * nat s) xs)) [0..<nat P])"
    unfolding up by (simp add: comp_def pg)
  also have "\<dots> = take (nat P * nat s) xs" by (rule concat_pages_nat)
  also have "\<dots> = xs"
  proof -
    have "int (length xs) \<le> P * s" unfolding P_def by (rule totalPagesOf_upper [OF assms])
    also have "P * s = int (nat P * nat s)" using P0 assms by simp
    finally have "length xs \<le> nat P * nat s" by linarith
    then show ?thesis by simp
  qed
  finally show ?thesis unfolding P_def .
qed

section \<open>Properties of the formatter\<close>

lemma ws_tokens_from_dropWhile: "ws_tokens_from [] (dropWhile isspace cs) = ws_tokens_from [] cs"
  by (induction cs) auto

lemma last_dropWhile: "dropWhile P xs \<noteq> [] \<Longrightarrow> last (dropWhile P xs) = last xs"
  by (induction xs) (auto split: if_splits)

lemma dropWhile_Nil_last: "dropWhile P xs = [] \<Longrightarrow> xs \<noteq> [] \<Longrightarrow> P (last xs)"
  by (induction xs) (auto split: if_splits)

lemma split_ws_from_closed:
  "split_ws_from cur s =
     (if cur = [] \<and> s \<noteq> [] \<and> isspace (hd s) then [[]] else [])
     @ ws_tokens_from cur s
     @ (if (s \<noteq> [] \<and> isspace (last s)) \<or> (s = [] \<and> cur = []) then [[]] else [])"
proof (induction cur s rule: split_ws_from.induct)
  case (1 cur)
  then show ?case by simp
next
  case (2 cur c cs)
  show ?case
  proof (cases "isspace c")
    case True
    define d where "d = dropWhile isspace cs"
    have hd: "d \<noteq> [] \<Longrightarrow> \<not> isspace (hd d)" unfolding d_def by (rule hd_dropWhile)
    have IH: "split_ws_from [] d = ws_tokens_from [] cs
        @ (if (d \<noteq> [] \<and> isspace (last d)) \<or> d = [] then [[]] else [])"
      using 2(1) [OF True] hd unfolding d_def [symmetric]
      by (auto simp: ws_tokens_from_dropWhile d_def)
    have tr: "((d \<noteq> [] \<and> isspace (last d)) \<or> d = []) \<longleftrightarrow> isspace (last (c # cs))"
    proof (cases "d = []")
      case True
      then show ?thesis using dropWhile_Nil_last [of isspace cs] \<open>isspace c\<close> by (auto simp: d_def)
    next
      case False
      then have "last d = last cs" "cs \<noteq> []" unfolding d_def by (auto simp: last_dropWhile)
      then show ?thesis using False by simp
    qed
    have "split_ws_from cur (c # cs) = cur # split_ws_from [] d" using True by (simp add: d_def)
    then show ?thesis using True IH tr by auto
  next
    case False
    have "split_ws_from cur (c # cs) = split_ws_from (cur @ [c]) cs" using False by simp
    then show ?thesis using False 2(2) [OF False] by auto
  qed
qed

lemma split_ws_closed:
  "split_ws s =
     (if s \<noteq> [] \<and> isspace (hd s) then [[]] else [])
     @ ws_tokens s
     @ (if s = [] \<or> isspace (last s) then [[]] else [])"
  unfolding split_ws_def ws_tokens_def split_ws_from_closed [of "[]" s] by auto

lemma slice_map: "slice (map f xs) a b = map f (slice xs a b)"
  by (simp add: slice_def Let_def take_map drop_map)

lemma paginatedResults_map: "paginatedResults (map f xs) p s = map f (paginatedResults xs p s)"
  by (simp add: paginatedResults_def Let_def slice_map)

lemma matchOf_formatRecord: "matchOf (formatRecord r) = r"
  by (simp add: formatRecord_def Let_def)

section \<open>Properties of the search\<close>

lemma searchFile_readable:
  assumes "fs filePath = Some f" "readError f = None"
  shows "searchFile fs filePath T pageNo pageSz =
    Inr (on_close (scanLines (readline_lines (content f)) (normalizeTerm T)) pageNo pageSz)"
  using assms by (simp add: searchFile_def existsSync_def lineEvents_def Let_def)

lemma searchFile_missing:
  assumes "fs filePath = None"
  shows "searchFile fs filePath T pageNo pageSz = Inl (FileNotFound filePath)"
  using assms by (simp add: searchFile_def existsSync_def Let_def)

lemma searchFile_unreadable:
  assumes "fs filePath = Some f" "readError f = Some e"
  shows "searchFile fs filePath T pageNo pageSz = Inl (IOError e)"
  using assms by (simp add: searchFile_def existsSync_def lineEvents_def Let_def)

lemma results_on_close:
  assumes "1 \<le> pageNo" "1 \<le> pageSz"
  shows "results (on_close M pageNo pageSz) =
    map formatRecord (take (nat pageSz) (drop (nat ((pageNo - 1) * pageSz)) M))"
  using assms by (simp add: on_close_def Let_def paginatedResults_take_drop)

lemma pagination_on_close:
  "pagination (on_close M pageNo pageSz) =
    \<lparr>page = pageNo, pageSize = pageSz, totalResults = int (length M),
     totalPages = totalPagesOf (int (length M)) pageSz,
     hasNextPage = (pageNo < totalPagesOf (int (length M)) pageSz),
     hasPreviousPage = (pageNo > 1)\<rparr>"
  by (simp add: on_close_def Let_def)

lemma drop_beyond_last_page:
  assumes "1 \<le> pageSz" "totalPagesOf (int (length M)) pageSz < pageNo"
  shows "drop (nat ((pageNo - 1) * pageSz)) M = []"
proof -
  have "int (length M) \<le> totalPagesOf (int (length M)) pageSz * pageSz"
    by (rule totalPagesOf_upper [OF assms(1)])
  also have "\<dots> \<le> (pageNo - 1) * pageSz"
    using assms by (intro mult_right_mono) auto
  finally have "length M \<le> nat ((pageNo - 1) * pageSz)" by linarith
  then show ?thesis by simp
qed

lemma searchFile_Inr:
  assumes "searchFile fs filePath T pageNo pageSz = Inr res"
  shows "\<exists>f. fs filePath = Some f \<and> readError f = None
    \<and> res = on_close (scanLines (readline_lines (content f)) (normalizeTerm T)) pageNo pageSz"
proof (cases "fs filePath")
  case None
  then show ?thesis using assms by (simp add: searchFile_missing)
next
  case (Some f)
  show ?thesis
  proof (cases "readError f")
    case None
    then show ?thesis using assms Some by (simp add: searchFile_readable)
  next
    case (Some e)
    then show ?thesis using assms \<open>fs filePath = Some f\<close> by (simp add: searchFile_unreadable)
  qed
qed

lemma spec_slice_map: "spec_slice (map g xs) a b = map g (spec_slice xs a b)"
  by (simp add: spec_slice_def take_map drop_map)

lemma paginatedResults_spec_slice:
  assumes "1 \<le> pageNo" "1 \<le> pageSz"
  shows "paginatedResults xs pageNo pageSz =
    spec_slice xs ((pageNo - 1) * pageSz) ((pageNo - 1) * pageSz + pageSz)"
  using assms by (simp add: paginatedResults_take_drop spec_slice_def)

lemma totalPagesOf_spec:
  assumes "1 \<le> pageSz"
  shows "totalPagesOf n pageSz = (if n = 0 then 0 else (n + pageSz - 1) div pageSz)"
  using assms by (simp add: totalPagesOf_zero totalPagesOf_div)

lemma scanLines_empty_term: "length (scanLines lns []) = length lns"
  by (simp add: length_scanLines toLowerCase_def str_includes_empty)

lemma length_split_char: "length (split_char s sep) = count_list s sep + 1"
  by (simp add: split_char_def length_split_from)

lemma getFileLineCount_readable:
  assumes "fs filePath = Some f" "readError f = None"
  shows "getFileLineCount fs filePath = int (count_list (content f) (CHR 0x0A)) + 1"
  using assms by (simp add: getFileLineCount_def readFileSync_def length_split_char)

lemma disjoint_take_drop:
  assumes "distinct ys" "b + a \<le> d"
  shows "set (take a (drop b ys)) \<inter> set (take c (drop d ys)) = {}"
proof -
  have "distinct (drop b ys)"
    using assms(1) by simp
  then have "distinct (take a (drop b ys) @ drop a (drop b ys))"
    by (simp only: append_take_drop_id)
  then have "set (take a (drop b ys)) \<inter> set (drop a (drop b ys)) = {}"
    by (simp only: distinct_append)
  then have "set (take a (drop b ys)) \<inter> set (drop (b + a) ys) = {}"
    by (simp add: add.commute)
  moreover have "set (take c (drop d ys)) \<subseteq> set (drop d ys)"
    by (rule set_take_subset)
  moreover have "set (drop d ys) \<subseteq> set (drop (b + a) ys)"
    using assms(2) by (rule set_drop_subset_set_drop)
  ultimately show ?thesis by blast
qed

lemma disjoint_pages:
  assumes "distinct ys" "1 \<le> s" "1 \<le> p" "p < q"
  shows "set (paginatedResults ys p s) \<inter> set (paginatedResults ys q s) = {}"
proof -
  have "p * s \<le> (q - 1) * s" using assms by (intro mult_right_mono) auto
  moreover have "(p - 1) * s + s = p * s" by (simp add: algebra_simps)
  moreover have "0 \<le> (p - 1) * s" using assms by simp
  ultimately have "nat ((p - 1) * s) + nat s \<le> nat ((q - 1) * s)" using assms by linarith
  then show ?thesis
    using assms by (simp add: paginatedResults_take_drop disjoint_take_drop)
qed

lemma paginatedResults_positions:
  "map snd (paginatedResults (zip [0..<length xs] xs) p s) = paginatedResults xs p s"
proof -
  have "map snd (paginatedResults (zip [0..<length xs] xs) p s) =
      paginatedResults (map snd (zip [0..<length xs] xs)) p s"
    by (simp only: paginatedResults_map)
  then show ?thesis by simp
qed

section \<open>The claims\<close>

subsection \<open>The scan\<close>

text \<open>
  Claim C1. For every sequence of lines and every search term, the scan yields, in file
  order, exactly one record \<open>{line, lineNumber}\<close> for each line whose lower-cased content
  contains the lower-cased normalised term as a substring, numbered from 1; the line
  numbers are strictly increasing; the number of records is the number of such lines; and
  \<open>totalResults\<close> of a search of a readable file is that number for the lines of the file.
  Lower-casing is that of the platform on the code units of the model: A to Z, U+00C0 to
  U+00D6 and U+00D8 to U+00DE go to the code unit 32 above, every other one is unchanged.
\<close>

theorem scan_matches_exactly:
  "scanLines lns (normalizeTerm T) =
     map (\<lambda>(n, l). \<lparr>line = l, lineNumber = n\<rparr>)
       (filter (\<lambda>(n, l). \<exists>p q. toLowerCase l = p @ toLowerCase (normalizeTerm T) @ q)
          (zip [1..int (length lns)] lns))
   \<and> sorted_wrt (<) (map lineNumber (scanLines lns (normalizeTerm T)))
   \<and> length (scanLines lns (normalizeTerm T)) =
       length (filter (\<lambda>l. \<exists>p q. toLowerCase l = p @ toLowerCase (normalizeTerm T) @ q) lns)
   \<and> (fs filePath = Some f \<and> readError f = None \<longrightarrow>
        (\<exists>res. searchFile fs filePath T pageNo pageSz = Inr res
           \<and> totalResults (pagination res) =
               int (length (filter (\<lambda>l. \<exists>p q. toLowerCase l = p @ toLowerCase (normalizeTerm T) @ q)
                      (readline_lines (content f))))))
   \<and> map of_char (toLowerCase l) =
       map (\<lambda>c. let n = (of_char c :: nat) in
          if (65 \<le> n \<and> n \<le> 90) \<or> (192 \<le> n \<and> n \<le> 214) \<or> (216 \<le> n \<and> n \<le> 222)
          then n + 32 else n) l"
proof (intro conjI impI)
  show "map of_char (toLowerCase l) =
       map (\<lambda>c. let n = (of_char c :: nat) in
          if (65 \<le> n \<and> n \<le> 90) \<or> (192 \<le> n \<and> n \<le> 214) \<or> (216 \<le> n \<and> n \<le> 222)
          then n + 32 else n) l"
    by (rule toLowerCase_code_units)
  show "scanLines lns (normalizeTerm T) =
     map (\<lambda>(n, l). \<lparr>line = l, lineNumber = n\<rparr>)
       (filter (\<lambda>(n, l). \<exists>p q. toLowerCase l = p @ toLowerCase (normalizeTerm T) @ q)
          (zip [1..int (length lns)] lns))"
    by (simp add: scanLines_eq str_includes_iff)
  show "sorted_wrt (<) (map lineNumber (scanLines lns (normalizeTerm T)))"
    unfolding lineNumber_scanLines by (rule sorted_wrt_map_filter_zip_upto)
  show len: "length (scanLines lns (normalizeTerm T)) =
       length (filter (\<lambda>l. \<exists>p q. toLowerCase l = p @ toLowerCase (normalizeTerm T) @ q) lns)" for lns
    by (simp add: length_scanLines str_includes_iff)
  assume "fs filePath = Some f \<and> readError f = None"
  then have "searchFile fs filePath T pageNo pageSz =
    Inr (on_close (scanLines (readline_lines (content f)) (normalizeTerm T)) pageNo pageSz)"
    by (simp add: searchFile_readable)
  then show "\<exists>res. searchFile fs filePath T pageNo pageSz = Inr res
           \<and> totalResults (pagination res) =
               int (length (filter (\<lambda>l. \<exists>p q. toLowerCase l = p @ toLowerCase (normalizeTerm T) @ q)
                      (readline_lines (content f))))"
    by (simp add: pagination_on_close len)
qed

theorem scan_matches_exactly_witness:
  "scanLines scenarioLines (normalizeTerm ''DRAGON'') =
     [\<lparr>line = ''100 Dragon scimitar'', lineNumber = 1\<rparr>,
      \<lparr>line = ''101 Dragon longsword'', lineNumber = 2\<rparr>]
   \<and> sorted_wrt (<) (map lineNumber (scanLines scenarioLines (normalizeTerm ''DRAGON'')))
   \<and> length (filter (\<lambda>l. \<exists>p q. toLowerCase l = p @ toLowerCase (normalizeTerm ''DRAGON'') @ q)
         scenarioLines) = 2
   \<and> (\<exists>res. searchFile scenarioFs ''data/objtypes.txt'' ''DRAGON'' 1 10 = Inr res
          \<and> totalResults (pagination res) = 2)
   \<and> scanLines [[CHR 0x31, CHR 0x20, CHR 0xC9] @ ''CLAIR''] (normalizeTerm ([CHR 0xE9] @ ''clair'')) =
       [\<lparr>line = [CHR 0x31, CHR 0x20, CHR 0xC9] @ ''CLAIR'', lineNumber = 1\<rparr>]"
proof -
  have latin: "scanLines [[CHR 0x31, CHR 0x20, CHR 0xC9] @ ''CLAIR'']
      (normalizeTerm ([CHR 0xE9] @ ''clair'')) =
       [\<lparr>line = [CHR 0x31, CHR 0x20, CHR 0xC9] @ ''CLAIR'', lineNumber = 1\<rparr>]"
    by code_simp
  have ev: "scanLines scenarioLines (normalizeTerm ''DRAGON'') =
     [\<lparr>line = ''100 Dragon scimitar'', lineNumber = 1\<rparr>,
      \<lparr>line = ''101 Dragon longsword'', lineNumber = 2\<rparr>]"
    by code_simp
  have rl: "readline_lines (content scenarioFile) = scenarioLines"
    by code_simp
  have h: "scenarioFs ''data/objtypes.txt'' = Some scenarioFile \<and> readError scenarioFile = None"
    by (simp add: scenarioFs_def scenarioFile_def)
  note th = scan_matches_exactly [of scenarioLines "''DRAGON''" scenarioFs "''data/objtypes.txt''"
      scenarioFile 1 10 "[]"]
  have a: "sorted_wrt (<) (map lineNumber (scanLines scenarioLines (normalizeTerm ''DRAGON'')))"
    by (rule th [THEN conjunct2, THEN conjunct1])
  have l2: "length (scanLines scenarioLines (normalizeTerm ''DRAGON'')) = 2"
    by (simp add: ev)
  have n: "length (filter (\<lambda>l. \<exists>p q. toLowerCase l = p @ toLowerCase (normalizeTerm ''DRAGON'') @ q)
         scenarioLines) = 2"
    using th [THEN conjunct2, THEN conjunct2, THEN conjunct1, symmetric] l2 by (rule trans)
  obtain res where r: "searchFile scenarioFs ''data/objtypes.txt'' ''DRAGON'' 1 10 = Inr res"
    and t: "totalResults (pagination res) =
      int (length (filter (\<lambda>l. \<exists>p q. toLowerCase l = p @ toLowerCase (normalizeTerm ''DRAGON'') @ q)
         (readline_lines (content scenarioFile))))"
    using th [THEN conjunct2, THEN conjunct2, THEN conjunct2, THEN conjunct1] h by blast
  have "totalResults (pagination res) = 2"
    unfolding t rl n by simp
  then show ?thesis using ev a n r latin by blast
qed

subsection \<open>The selected page\<close>

text \<open>
  Claim C2. For every match list \<open>M\<close>, every page \<open>\<ge> 1\<close> and page size \<open>\<ge> 1\<close>, the results
  are the formatted records of the slice \<open>M[(page-1)*pageSize : (page-1)*pageSize + pageSize]\<close>
  of the whole match list, in its order, each carrying its match unchanged; a page beyond
  the last page gives the empty sequence; a page size larger than the number of matches
  gives the whole list on page 1. A search of a readable file returns this result for
  the match list of the scan, not an error.
\<close>

theorem results_are_page_slice:
  "1 \<le> pageNo \<and> 1 \<le> pageSz \<longrightarrow>
     results (on_close M pageNo pageSz) =
       map formatRecord (take (nat pageSz) (drop (nat ((pageNo - 1) * pageSz)) M))
   \<and> map matchOf (results (on_close M pageNo pageSz)) =
       take (nat pageSz) (drop (nat ((pageNo - 1) * pageSz)) M)
   \<and> (totalPages (pagination (on_close M pageNo pageSz)) < pageNo \<longrightarrow>
        results (on_close M pageNo pageSz) = [])
   \<and> (pageNo = 1 \<and> int (length M) < pageSz \<longrightarrow>
        map matchOf (results (on_close M pageNo pageSz)) = M)
   \<and> (fs filePath = Some f \<and> readError f = None \<longrightarrow>
        searchFile fs filePath T pageNo pageSz =
          Inr (on_close (scanLines (readline_lines (content f)) (normalizeTerm T)) pageNo pageSz))"
proof (intro impI)
  assume a: "1 \<le> pageNo \<and> 1 \<le> pageSz"
  then have p: "1 \<le> pageNo" and s: "1 \<le> pageSz" by auto
  have r: "results (on_close M pageNo pageSz) =
       map formatRecord (take (nat pageSz) (drop (nat ((pageNo - 1) * pageSz)) M))"
    by (rule results_on_close [OF p s])
  have m: "map matchOf (results (on_close M pageNo pageSz)) =
       take (nat pageSz) (drop (nat ((pageNo - 1) * pageSz)) M)"
    unfolding r by (simp add: comp_def matchOf_formatRecord)
  have beyond: "results (on_close M pageNo pageSz) = []"
    if "totalPages (pagination (on_close M pageNo pageSz)) < pageNo"
  proof -
    from that have "totalPagesOf (int (length M)) pageSz < pageNo"
      by (simp add: pagination_on_close)
    then have "drop (nat ((pageNo - 1) * pageSz)) M = []"
      by (rule drop_beyond_last_page [OF s])
    then show ?thesis unfolding r by simp
  qed
  have whole: "map matchOf (results (on_close M pageNo pageSz)) = M"
    if "pageNo = 1 \<and> int (length M) < pageSz"
  proof -
    from that have "length M \<le> nat pageSz" by linarith
    then show ?thesis unfolding m using that by simp
  qed
  have fromFile: "searchFile fs filePath T pageNo pageSz =
          Inr (on_close (scanLines (readline_lines (content f)) (normalizeTerm T)) pageNo pageSz)"
    if "fs filePath = Some f \<and> readError f = None"
    using that by (simp add: searchFile_readable)
  show "results (on_close M pageNo pageSz) =
       map formatRecord (take (nat pageSz) (drop (nat ((pageNo - 1) * pageSz)) M))
   \<and> map matchOf (results (on_close M pageNo pageSz)) =
       take (nat pageSz) (drop (nat ((pageNo - 1) * pageSz)) M)
   \<and> (totalPages (pagination (on_close M pageNo pageSz)) < pageNo \<longrightarrow>
        results (on_close M pageNo pageSz) = [])
   \<and> (pageNo = 1 \<and> int (length M) < pageSz \<longrightarrow>
        map matchOf (results (on_close M pageNo pageSz)) = M)
   \<and> (fs filePath = Some f \<and> readError f = None \<longrightarrow>
        searchFile fs filePath T pageNo pageSz =
          Inr (on_close (scanLines (readline_lines (content f)) (normalizeTerm T)) pageNo pageSz))"
    using r m beyond whole fromFile by blast
qed

theorem results_are_page_slice_witness:
  "map matchOf (results (on_close (scanLines scenarioLines (normalizeTerm ''dragon'')) 2 1)) =
     [\<lparr>line = ''101 Dragon longsword'', lineNumber = 2\<rparr>]
   \<and> results (on_close (scanLines scenarioLines (normalizeTerm ''dragon'')) 3 1) = []
   \<and> map matchOf (results (on_close (scanLines scenarioLines (normalizeTerm ''dragon'')) 1 10)) =
       scanLines scenarioLines (normalizeTerm ''dragon'')
   \<and> searchFile scenarioFs ''data/objtypes.txt'' ''dragon'' 2 1 =
       Inr (on_close (scanLines (readline_lines (content scenarioFile)) (normalizeTerm ''dragon'')) 2 1)"
proof -
  let ?M = "scanLines scenarioLines (normalizeTerm ''dragon'')"
  have ev: "?M = [\<lparr>line = ''100 Dragon scimitar'', lineNumber = 1\<rparr>,
      \<lparr>line = ''101 Dragon longsword'', lineNumber = 2\<rparr>]"
    by code_simp
  have h: "scenarioFs ''data/objtypes.txt'' = Some scenarioFile \<and> readError scenarioFile = None"
    by (simp add: scenarioFs_def scenarioFile_def)
  have tp: "totalPages (pagination (on_close ?M 3 1)) < 3"
    by code_simp
  have v21: "(1::int) \<le> 2 \<and> (1::int) \<le> 1" and v31: "(1::int) \<le> 3 \<and> (1::int) \<le> 1"
    and v110: "(1::int) \<le> 1 \<and> (1::int) \<le> 10" and small: "(1::int) = 1 \<and> int (length ?M) < 10"
    by (simp_all add: ev)
  note t21 = results_are_page_slice [of 2 1 ?M scenarioFs "''data/objtypes.txt''" scenarioFile
      "''dragon''", THEN mp, OF v21]
  note t31 = results_are_page_slice [of 3 1 ?M scenarioFs "''data/objtypes.txt''" scenarioFile
      "''dragon''", THEN mp, OF v31]
  note t110 = results_are_page_slice [of 1 10 ?M scenarioFs "''data/objtypes.txt''" scenarioFile
      "''dragon''", THEN mp, OF v110]
  have e1: "take (nat 1) (drop (nat ((2 - 1) * 1)) ?M) =
      [\<lparr>line = ''101 Dragon longsword'', lineNumber = 2\<rparr>]"
    unfolding ev by simp
  have c1: "map matchOf (results (on_close ?M 2 1)) =
      [\<lparr>line = ''101 Dragon longsword'', lineNumber = 2\<rparr>]"
    using t21 [THEN conjunct2, THEN conjunct1] e1 by (rule trans)
  have c2: "results (on_close ?M 3 1) = []"
    using t31 [THEN conjunct2, THEN conjunct2, THEN conjunct1] tp by (rule mp)
  have c3: "map matchOf (results (on_close ?M 1 10)) = ?M"
    using t110 [THEN conjunct2, THEN conjunct2, THEN conjunct2, THEN conjunct1] small by (rule mp)
  have c4: "searchFile scenarioFs ''data/objtypes.txt'' ''dragon'' 2 1 =
       Inr (on_close (scanLines (readline_lines (content scenarioFile)) (normalizeTerm ''dragon'')) 2 1)"
    using t21 [THEN conjunct2, THEN conjunct2, THEN conjunct2, THEN conjunct2] h by (rule mp)
  show ?thesis using c1 c2 c3 c4 by (intro conjI)
qed

subsection \<open>The pagination record\<close>

text \<open>
  Claim C3. Every result of a search with page \<open>\<ge> 1\<close> and page size \<open>\<ge> 1\<close> has the page
  and page size of the request, \<open>totalPages = ceil(totalResults / pageSize)\<close> (which is
  \<open>(totalResults + pageSize - 1) div pageSize\<close> in integer arithmetic, and 0 when
  \<open>totalResults = 0\<close>), \<open>hasNextPage = (page < totalPages)\<close> and
  \<open>hasPreviousPage = (page > 1)\<close>; on a page beyond the last page the results are empty
  and \<open>hasNextPage\<close> is false.
\<close>

theorem pagination_invariants:
  "searchFile fs filePath T pageNo pageSz = Inr res \<and> 1 \<le> pageNo \<and> 1 \<le> pageSz \<longrightarrow>
     page (pagination res) = pageNo \<and> pageSize (pagination res) = pageSz
   \<and> 0 \<le> totalResults (pagination res)
   \<and> totalPages (pagination res) =
       \<lceil>real_of_int (totalResults (pagination res)) / real_of_int (pageSize (pagination res))\<rceil>
   \<and> totalPages (pagination res) =
       (totalResults (pagination res) + pageSize (pagination res) - 1) div pageSize (pagination res)
   \<and> (totalResults (pagination res) = 0 \<longrightarrow> totalPages (pagination res) = 0)
   \<and> hasNextPage (pagination res) = (page (pagination res) < totalPages (pagination res))
   \<and> hasPreviousPage (pagination res) = (1 < page (pagination res))
   \<and> (totalPages (pagination res) < page (pagination res) \<longrightarrow>
        results res = [] \<and> \<not> hasNextPage (pagination res))"
proof (intro impI)
  assume a: "searchFile fs filePath T pageNo pageSz = Inr res \<and> 1 \<le> pageNo \<and> 1 \<le> pageSz"
  then have p: "1 \<le> pageNo" and s: "1 \<le> pageSz" by auto
  from a have sf: "searchFile fs filePath T pageNo pageSz = Inr res" by simp
  obtain f :: fileNode where res: "res =
      on_close (scanLines (readline_lines (content f)) (normalizeTerm T)) pageNo pageSz"
    using searchFile_Inr [OF sf] by auto
  define M where "M = scanLines (readline_lines (content f)) (normalizeTerm T)"
  have pg: "pagination res =
    \<lparr>page = pageNo, pageSize = pageSz, totalResults = int (length M),
     totalPages = totalPagesOf (int (length M)) pageSz,
     hasNextPage = (pageNo < totalPagesOf (int (length M)) pageSz),
     hasPreviousPage = (pageNo > 1)\<rparr>"
    unfolding res M_def by (rule pagination_on_close)
  have c1: "page (pagination res) = pageNo \<and> pageSize (pagination res) = pageSz"
    by (simp add: pg)
  have c2: "0 \<le> totalResults (pagination res)" by (simp add: pg)
  have c3: "totalPages (pagination res) =
       \<lceil>real_of_int (totalResults (pagination res)) / real_of_int (pageSize (pagination res))\<rceil>"
    by (simp add: pg totalPagesOf_def)
  have c4: "totalPages (pagination res) =
       (totalResults (pagination res) + pageSize (pagination res) - 1) div pageSize (pagination res)"
    by (simp add: pg totalPagesOf_div [OF s])
  have c5: "totalResults (pagination res) = 0 \<longrightarrow> totalPages (pagination res) = 0"
    by (simp add: pg totalPagesOf_zero)
  have c6: "hasNextPage (pagination res) = (page (pagination res) < totalPages (pagination res))"
    by (simp add: pg)
  have c7: "hasPreviousPage (pagination res) = (1 < page (pagination res))"
    by (simp add: pg)
  have c8: "totalPages (pagination res) < page (pagination res) \<longrightarrow>
        results res = [] \<and> \<not> hasNextPage (pagination res)"
  proof
    assume "totalPages (pagination res) < page (pagination res)"
    then have b: "totalPagesOf (int (length M)) pageSz < pageNo" by (simp add: pg)
    then have "drop (nat ((pageNo - 1) * pageSz)) M = []"
      by (rule drop_beyond_last_page [OF s])
    then have "results res = []"
      unfolding res M_def [symmetric] results_on_close [OF p s] by simp
    moreover have "\<not> hasNextPage (pagination res)" using b by (simp add: pg)
    ultimately show "results res = [] \<and> \<not> hasNextPage (pagination res)" by simp
  qed
  show "page (pagination res) = pageNo \<and> pageSize (pagination res) = pageSz
   \<and> 0 \<le> totalResults (pagination res)
   \<and> totalPages (pagination res) =
       \<lceil>real_of_int (totalResults (pagination res)) / real_of_int (pageSize (pagination res))\<rceil>
   \<and> totalPages (pagination res) =
       (totalResults (pagination res) + pageSize (pagination res) - 1) div pageSize (pagination res)
   \<and> (totalResults (pagination res) = 0 \<longrightarrow> totalPages (pagination res) = 0)
   \<and> hasNextPage (pagination res) = (page (pagination res) < totalPages (pagination res))
   \<and> hasPreviousPage (pagination res) = (1 < page (pagination res))
   \<and> (totalPages (pagination res) < page (pagination res) \<longrightarrow>
        results res = [] \<and> \<not> hasNextPage (pagination res))"
    using c1 c2 c3 c4 c5 c6 c7 c8 by (intro conjI) auto
qed

theorem pagination_invariants_witness:
  "searchFile scenarioFs ''data/objtypes.txt'' ''dragon'' 3 1 = Inr scenarioPage3
   \<and> totalPages (pagination scenarioPage3) =
       (totalResults (pagination scenarioPage3) + pageSize (pagination scenarioPage3) - 1)
         div pageSize (pagination scenarioPage3)
   \<and> hasNextPage (pagination scenarioPage3) =
       (page (pagination scenarioPage3) < totalPages (pagination scenarioPage3))
   \<and> hasPreviousPage (pagination scenarioPage3) = (1 < page (pagination scenarioPage3))
   \<and> results scenarioPage3 = [] \<and> \<not> hasNextPage (pagination scenarioPage3)"
proof -
  have ev: "searchFile scenarioFs ''data/objtypes.txt'' ''dragon'' 3 1 = Inr scenarioPage3"
    by code_simp
  have h: "searchFile scenarioFs ''data/objtypes.txt'' ''dragon'' 3 1 = Inr scenarioPage3
      \<and> (1::int) \<le> 3 \<and> (1::int) \<le> 1"
    using ev by simp
  note th = pagination_invariants [of scenarioFs "''data/objtypes.txt''" "''dragon''" 3 1
      scenarioPage3, THEN mp, OF h]
  have beyond: "totalPages (pagination scenarioPage3) < page (pagination scenarioPage3)"
    by (simp add: scenarioPage3_def)
  have last: "results scenarioPage3 = [] \<and> \<not> hasNextPage (pagination scenarioPage3)"
    using th beyond by blast
  show ?thesis using ev th last by blast
qed

subsection \<open>The formatter\<close>

text \<open>
  Claim C4, as the program has it. For a line that neither starts nor ends with white
  space (the empty line included), the record is enriched exactly when the line has two
  or more white-space-separated tokens, with \<open>id\<close> the first token, \<open>value\<close> the other
  tokens joined by single spaces and \<open>formatted = id + TAB + value\<close>, and is passed through
  unchanged otherwise. In general the formatter works on the pieces of the split at every
  maximal run of white space: the tokens, preceded by an empty piece when the line starts
  with white space and followed by an empty piece when it ends with white space; it
  enriches the record when there are two or more pieces, with \<open>id\<close> the first piece and
  \<open>value\<close> the other pieces joined by single spaces. White space is the class \<open>\s\<close> of the
  platform on the code units of the model: TAB, LF, VT, FF, CR, SPACE and the no-break
  space U+00A0.
\<close>

theorem formatRecord_pieces:
  "formatRecord r =
     (let s = line r;
          pieces = (if s \<noteq> [] \<and> isspace (hd s) then [[]] else [])
                   @ ws_tokens s
                   @ (if s = [] \<or> isspace (last s) then [[]] else [])
      in if 2 \<le> length pieces
         then KeyValue r (hd pieces) (join (tl pieces) '' '')
                (hd pieces @ [CHR 0x09] @ join (tl pieces) '' '')
         else Plain r)
   \<and> ((line r \<noteq> [] \<longrightarrow> \<not> isspace (hd (line r)) \<and> \<not> isspace (last (line r))) \<longrightarrow>
        formatRecord r =
          (let ts = ws_tokens (line r)
           in if 2 \<le> length ts
              then KeyValue r (hd ts) (join (tl ts) '' '') (hd ts @ [CHR 0x09] @ join (tl ts) '' '')
              else Plain r))
   \<and> (isspace c \<longleftrightarrow> of_char c \<in> {9, 10, 11, 12, 13, 32, 160 :: nat})"
proof -
  have g: "formatRecord r =
     (let s = line r;
          pieces = (if s \<noteq> [] \<and> isspace (hd s) then [[]] else [])
                   @ ws_tokens s
                   @ (if s = [] \<or> isspace (last s) then [[]] else [])
      in if 2 \<le> length pieces
         then KeyValue r (hd pieces) (join (tl pieces) '' '')
                (hd pieces @ [CHR 0x09] @ join (tl pieces) '' '')
         else Plain r)"
    unfolding Let_def split_ws_closed [of "line r", symmetric]
    by (simp add: formatRecord_def Let_def drop_Suc)
  have "formatRecord r =
          (let ts = ws_tokens (line r)
           in if 2 \<le> length ts
              then KeyValue r (hd ts) (join (tl ts) '' '') (hd ts @ [CHR 0x09] @ join (tl ts) '' '')
              else Plain r)"
    if "line r \<noteq> [] \<longrightarrow> \<not> isspace (hd (line r)) \<and> \<not> isspace (last (line r))"
    unfolding g using that by (cases "line r = []") (simp_all add: Let_def ws_tokens_def)
  then have t: "(line r \<noteq> [] \<longrightarrow> \<not> isspace (hd (line r)) \<and> \<not> isspace (last (line r))) \<longrightarrow>
        formatRecord r =
          (let ts = ws_tokens (line r)
           in if 2 \<le> length ts
              then KeyValue r (hd ts) (join (tl ts) '' '') (hd ts @ [CHR 0x09] @ join (tl ts) '' '')
              else Plain r)"
    by (rule impI)
  have w: "isspace c \<longleftrightarrow> of_char c \<in> {9, 10, 11, 12, 13, 32, 160 :: nat}"
    by (rule isspace_code_units)
  show ?thesis using g t w by (intro conjI)
qed

theorem formatRecord_pieces_witness:
  "formatRecord \<lparr>line = ''100 Dragon  scimitar'', lineNumber = 1\<rparr> =
     KeyValue \<lparr>line = ''100 Dragon  scimitar'', lineNumber = 1\<rparr> ''100'' ''Dragon scimitar''
       (''100'' @ [CHR 0x09] @ ''Dragon scimitar'')
   \<and> formatRecord \<lparr>line = ''abc'' @ [CHR 0xA0] @ ''def'', lineNumber = 2\<rparr> =
       KeyValue \<lparr>line = ''abc'' @ [CHR 0xA0] @ ''def'', lineNumber = 2\<rparr> ''abc'' ''def''
         (''abc'' @ [CHR 0x09] @ ''def'')"
proof -
  let ?r = "\<lparr>line = ''100 Dragon  scimitar'', lineNumber = 1\<rparr>"
  let ?n = "\<lparr>line = ''abc'' @ [CHR 0xA0] @ ''def'', lineNumber = 2\<rparr>"
  have "\<not> isspace (hd (line ?n)) \<and> \<not> isspace (last (line ?n))"
    by code_simp
  then have hn: "line ?n \<noteq> [] \<longrightarrow> \<not> isspace (hd (line ?n)) \<and> \<not> isspace (last (line ?n))"
    by (rule impI)
  have tn: "ws_tokens (line ?n) = [''abc'', ''def'']"
    by code_simp
  have "formatRecord ?n =
          (let ts = ws_tokens (line ?n)
           in if 2 \<le> length ts
              then KeyValue ?n (hd ts) (join (tl ts) '' '') (hd ts @ [CHR 0x09] @ join (tl ts) '' '')
              else Plain ?n)"
    using formatRecord_pieces [of ?n "CHR 0xA0", THEN conjunct2, THEN conjunct1] hn by (rule mp)
  then have nbsp: "formatRecord ?n = KeyValue ?n ''abc'' ''def'' (''abc'' @ [CHR 0x09] @ ''def'')"
    unfolding tn by (simp add: Let_def)
  have "\<not> isspace (hd (line ?r)) \<and> \<not> isspace (last (line ?r))"
    by code_simp
  then have h: "line ?r \<noteq> [] \<longrightarrow> \<not> isspace (hd (line ?r)) \<and> \<not> isspace (last (line ?r))"
    by (rule impI)
  have tk: "ws_tokens (line ?r) = [''100'', ''Dragon'', ''scimitar'']"
    by code_simp
  have "formatRecord ?r =
          (let ts = ws_tokens (line ?r)
           in if 2 \<le> length ts
              then KeyValue ?r (hd ts) (join (tl ts) '' '') (hd ts @ [CHR 0x09] @ join (tl ts) '' '')
              else Plain ?r)"
    using formatRecord_pieces [of ?r "CHR 0x20", THEN conjunct2, THEN conjunct1] h by (rule mp)
  then have "formatRecord ?r =
      KeyValue ?r ''100'' ''Dragon scimitar'' (''100'' @ [CHR 0x09] @ ''Dragon scimitar'')"
    unfolding tk by (simp add: Let_def)
  then show ?thesis using nbsp by (rule conjI)
qed

text \<open>
  The claim as written fails on a line that ends with white space: \<open>abc \<close> has the one
  token \<open>abc\<close>, and the formatter enriches its record, with \<open>id = abc\<close> and an empty
  \<open>value\<close>, instead of passing it through.
\<close>

theorem formatRecord_trailing_space_counterexample:
  "ws_tokens ''abc '' = [''abc'']
   \<and> formatRecord \<lparr>line = ''abc '', lineNumber = 1\<rparr> =
       KeyValue \<lparr>line = ''abc '', lineNumber = 1\<rparr> ''abc'' [] (''abc'' @ [CHR 0x09])
   \<and> formatRecord \<lparr>line = ''abc '', lineNumber = 1\<rparr> \<noteq> Plain \<lparr>line = ''abc '', lineNumber = 1\<rparr>"
  by code_simp

subsection \<open>Missing file and empty result\<close>

text \<open>
  Claim C5, as the program has it. \<open>searchFile\<close> fails with \<open>File not found\<close> exactly when
  the path does not exist, whatever the term, the page and the page size; when the file
  exists, is read without error and no line matches, it returns the result with
  \<open>results = []\<close>, \<open>totalResults = 0\<close>, \<open>totalPages = 0\<close>, \<open>hasNextPage = false\<close> and
  \<open>hasPreviousPage = (page > 1)\<close>: both flags are false on page 1, and
  \<open>hasPreviousPage\<close> is true on every later page.
\<close>

theorem searchFile_not_found_or_empty:
  "((\<exists>p. searchFile fs filePath T pageNo pageSz = Inl (FileNotFound p)) \<longleftrightarrow> fs filePath = None)
   \<and> (fs filePath = None \<longrightarrow> searchFile fs filePath T pageNo pageSz = Inl (FileNotFound filePath))
   \<and> (fs filePath = Some f \<and> readError f = None \<and> 1 \<le> pageNo \<and> 1 \<le> pageSz
        \<and> scanLines (readline_lines (content f)) (normalizeTerm T) = [] \<longrightarrow>
        searchFile fs filePath T pageNo pageSz =
          Inr \<lparr>results = [],
               pagination = \<lparr>page = pageNo, pageSize = pageSz, totalResults = 0, totalPages = 0,
                 hasNextPage = False, hasPreviousPage = (1 < pageNo)\<rparr>\<rparr>)"
proof -
  have missing: "searchFile fs filePath T pageNo pageSz = Inl (FileNotFound filePath)"
    if "fs filePath = None"
    using that by (rule searchFile_missing)
  have exact: "(\<exists>p. searchFile fs filePath T pageNo pageSz = Inl (FileNotFound p)) \<longleftrightarrow>
      fs filePath = None"
  proof (cases "fs filePath")
    case None
    then show ?thesis using missing by simp
  next
    case (Some g)
    show ?thesis
    proof (cases "readError g")
      case None
      then show ?thesis using Some by (simp add: searchFile_readable)
    next
      case (Some e)
      then show ?thesis using \<open>fs filePath = Some g\<close> by (simp add: searchFile_unreadable)
    qed
  qed
  have empty: "searchFile fs filePath T pageNo pageSz =
          Inr \<lparr>results = [],
               pagination = \<lparr>page = pageNo, pageSize = pageSz, totalResults = 0, totalPages = 0,
                 hasNextPage = False, hasPreviousPage = (1 < pageNo)\<rparr>\<rparr>"
    if h: "fs filePath = Some f \<and> readError f = None \<and> 1 \<le> pageNo \<and> 1 \<le> pageSz
        \<and> scanLines (readline_lines (content f)) (normalizeTerm T) = []"
  proof -
    have "searchFile fs filePath T pageNo pageSz = Inr (on_close [] pageNo pageSz)"
      using h searchFile_readable [of fs filePath f T pageNo pageSz] by simp
    moreover have "on_close [] pageNo pageSz =
        \<lparr>results = [],
               pagination = \<lparr>page = pageNo, pageSize = pageSz, totalResults = 0, totalPages = 0,
                 hasNextPage = False, hasPreviousPage = (1 < pageNo)\<rparr>\<rparr>"
      using h by (simp add: on_close_def Let_def totalPagesOf_zero paginatedResults_take_drop)
    ultimately show ?thesis by simp
  qed
  show ?thesis using exact missing empty by blast
qed

theorem searchFile_not_found_or_empty_witness:
  "searchFile scenarioFs ''data/missing.txt'' ''x'' 1 10 = Inl (FileNotFound ''data/missing.txt'')
   \<and> searchFile scenarioFs ''data/objtypes.txt'' ''nonexistentterm'' 1 10 =
       Inr \<lparr>results = [],
            pagination = \<lparr>page = 1, pageSize = 10, totalResults = 0, totalPages = 0,
              hasNextPage = False, hasPreviousPage = False\<rparr>\<rparr>"
proof -
  have m: "scenarioFs ''data/missing.txt'' = None"
    by (simp add: scenarioFs_def)
  have e: "scenarioFs ''data/objtypes.txt'' = Some scenarioFile \<and> readError scenarioFile = None
      \<and> (1::int) \<le> 1 \<and> (1::int) \<le> 10
      \<and> scanLines (readline_lines (content scenarioFile)) (normalizeTerm ''nonexistentterm'') = []"
    by code_simp
  have c1: "searchFile scenarioFs ''data/missing.txt'' ''x'' 1 10 =
      Inl (FileNotFound ''data/missing.txt'')"
    using searchFile_not_found_or_empty [of scenarioFs "''data/missing.txt''" "''x''" 1 10 scenarioFile,
        THEN conjunct2, THEN conjunct1] m by (rule mp)
  have c2: "searchFile scenarioFs ''data/objtypes.txt'' ''nonexistentterm'' 1 10 =
       Inr \<lparr>results = [],
            pagination = \<lparr>page = 1, pageSize = 10, totalResults = 0, totalPages = 0,
              hasNextPage = False, hasPreviousPage = (1 < (1::int))\<rparr>\<rparr>"
    using searchFile_not_found_or_empty [of scenarioFs "''data/objtypes.txt''" "''nonexistentterm''"
        1 10 scenarioFile, THEN conjunct2, THEN conjunct2] e by (rule mp)
  show ?thesis using c1 c2 by simp
qed

text \<open>
  The claim as written fails on a later page: the search for a term that no line contains,
  with page 2, returns no results, and \<open>hasPreviousPage\<close> is true.
\<close>

theorem searchFile_empty_page2_counterexample:
  "searchFile scenarioFs ''data/objtypes.txt'' ''nonexistentterm'' 2 10 =
     Inr \<lparr>results = [],
          pagination = \<lparr>page = 2, pageSize = 10, totalResults = 0, totalPages = 0,
            hasNextPage = False, hasPreviousPage = True\<rparr>\<rparr>"
  by code_simp

subsection \<open>The normalisation of the search term\<close>

text \<open>
  Claim C6. The normalisation replaces the first space of the search term, and only that
  one, with an underscore: a term without a space is unchanged, and in a term
  \<open>p + " " + s\<close> where \<open>p\<close> has no space the result is \<open>p + "_" + s\<close>, with every space of
  \<open>s\<close> left as it is; the scan of a search matches the lines against that result.
\<close>

theorem normalizeTerm_first_space_only:
  "(CHR '' '' \<notin> set T \<longrightarrow> normalizeTerm T = T)
   \<and> (CHR '' '' \<notin> set p \<longrightarrow> normalizeTerm (p @ CHR '' '' # s) = p @ CHR ''_'' # s)
   \<and> (CHR '' '' \<notin> set p \<and> fs filePath = Some f \<and> readError f = None \<longrightarrow>
        searchFile fs filePath (p @ CHR '' '' # s) pageNo pageSz =
          Inr (on_close (scanLines (readline_lines (content f)) (p @ CHR ''_'' # s)) pageNo pageSz))"
  by (simp add: normalizeTerm_def replace_no_occurrence replace_first_occurrence
      searchFile_readable)

theorem normalizeTerm_first_space_only_witness:
  "normalizeTerm ''dragon'' = ''dragon''
   \<and> normalizeTerm ''rune full helm'' = ''rune_full helm''"
proof -
  have a: "CHR '' '' \<notin> set ''dragon''" and b: "CHR '' '' \<notin> set ''rune''"
    by simp_all
  have c1: "normalizeTerm ''dragon'' = ''dragon''"
    using normalizeTerm_first_space_only [of "''dragon''" "''rune''" "''full helm''", THEN conjunct1] a
    by (rule mp)
  have c2: "normalizeTerm (''rune'' @ CHR '' '' # ''full helm'') = ''rune'' @ CHR ''_'' # ''full helm''"
    using normalizeTerm_first_space_only [of "''dragon''" "''rune''" "''full helm''", THEN conjunct2,
        THEN conjunct1] b
    by (rule mp)
  show ?thesis using c1 c2 by simp
qed

subsection \<open>Format then paginate, paginate then format\<close>

text \<open>
  Claim C7. For every match list, every page \<open>\<ge> 1\<close> and every page size \<open>\<ge> 1\<close>, the
  result of the specified order, every match through the formatter and then the
  Paginator on the formatted list, is the result the program computes by slicing the
  match list first and formatting the slice; so the search of a readable file returns the
  result of the specified composition.
\<close>

theorem format_then_paginate:
  "1 \<le> pageNo \<and> 1 \<le> pageSz \<longrightarrow>
     on_close M pageNo pageSz = spec_paginate (map formatRecord M) pageNo pageSz
   \<and> (fs filePath = Some f \<and> readError f = None \<longrightarrow>
        searchFile fs filePath T pageNo pageSz =
          Inr (spec_search (readline_lines (content f)) T pageNo pageSz))"
proof (intro impI)
  assume a: "1 \<le> pageNo \<and> 1 \<le> pageSz"
  then have p: "1 \<le> pageNo" and s: "1 \<le> pageSz" by auto
  have eq: "on_close N pageNo pageSz = spec_paginate (map formatRecord N) pageNo pageSz" for N
    unfolding on_close_def spec_paginate_def Let_def
    by (simp add: paginatedResults_spec_slice [OF p s] spec_slice_map
        totalPagesOf_spec [OF s])
  have "searchFile fs filePath T pageNo pageSz =
          Inr (spec_search (readline_lines (content f)) T pageNo pageSz)"
    if "fs filePath = Some f \<and> readError f = None"
    using that by (simp add: searchFile_readable spec_search_def eq)
  then show "on_close M pageNo pageSz = spec_paginate (map formatRecord M) pageNo pageSz
   \<and> (fs filePath = Some f \<and> readError f = None \<longrightarrow>
        searchFile fs filePath T pageNo pageSz =
          Inr (spec_search (readline_lines (content f)) T pageNo pageSz))"
    using eq by blast
qed

theorem format_then_paginate_witness:
  "searchFile scenarioFs ''data/objtypes.txt'' ''dragon'' 2 1 =
     Inr (spec_search (readline_lines (content scenarioFile)) ''dragon'' 2 1)
   \<and> spec_search (readline_lines (content scenarioFile)) ''dragon'' 2 1 =
       \<lparr>results = [KeyValue \<lparr>line = ''101 Dragon longsword'', lineNumber = 2\<rparr> ''101''
            ''Dragon longsword'' (''101'' @ [CHR 0x09] @ ''Dragon longsword'')],
        pagination = \<lparr>page = 2, pageSize = 1, totalResults = 2, totalPages = 2,
          hasNextPage = False, hasPreviousPage = True\<rparr>\<rparr>"
proof -
  have v: "(1::int) \<le> 2 \<and> (1::int) \<le> 1" by simp
  have h: "scenarioFs ''data/objtypes.txt'' = Some scenarioFile \<and> readError scenarioFile = None"
    by (simp add: scenarioFs_def scenarioFile_def)
  have c1: "searchFile scenarioFs ''data/objtypes.txt'' ''dragon'' 2 1 =
     Inr (spec_search (readline_lines (content scenarioFile)) ''dragon'' 2 1)"
    using format_then_paginate [of 2 1 "[]" scenarioFs "''data/objtypes.txt''" scenarioFile
        "''dragon''", THEN mp, OF v, THEN conjunct2] h by (rule mp)
  have c2: "spec_search (readline_lines (content scenarioFile)) ''dragon'' 2 1 =
       \<lparr>results = [KeyValue \<lparr>line = ''101 Dragon longsword'', lineNumber = 2\<rparr> ''101''
            ''Dragon longsword'' (''101'' @ [CHR 0x09] @ ''Dragon longsword'')],
        pagination = \<lparr>page = 2, pageSize = 1, totalResults = 2, totalPages = 2,
          hasNextPage = False, hasPreviousPage = True\<rparr>\<rparr>"
    by code_simp
  show ?thesis using c1 c2 by (rule conjI)
qed

subsection \<open>The pages partition the match list\<close>

text \<open>
  Claim C8. For every match list of length \<open>N\<close> and every page size \<open>S \<ge> 1\<close>, the slices
  of the pages \<open>1..ceil(N/S)\<close> have lengths that sum to \<open>N\<close>, give the match list back when
  concatenated in page order, and are pairwise disjoint: no position of the match list is
  in two slices, and two slices of a list without repetition (such as a match list, whose
  line numbers differ) have no element in common.
\<close>

theorem pages_partition_matches:
  "1 \<le> s \<longrightarrow>
     sum_list (map (\<lambda>p. length (paginatedResults xs p s)) [1..totalPagesOf (int (length xs)) s])
       = length xs
   \<and> concat (map (\<lambda>p. paginatedResults xs p s) [1..totalPagesOf (int (length xs)) s]) = xs
   \<and> (\<forall>p q. 1 \<le> p \<and> p < q \<and> q \<le> totalPagesOf (int (length xs)) s \<longrightarrow>
         set (paginatedResults (zip [0..<length xs] xs) p s)
           \<inter> set (paginatedResults (zip [0..<length xs] xs) q s) = {}
       \<and> map snd (paginatedResults (zip [0..<length xs] xs) p s) = paginatedResults xs p s
       \<and> map snd (paginatedResults (zip [0..<length xs] xs) q s) = paginatedResults xs q s
       \<and> (distinct xs \<longrightarrow> set (paginatedResults xs p s) \<inter> set (paginatedResults xs q s) = {}))"
proof (intro impI)
  assume s: "1 \<le> s"
  let ?P = "totalPagesOf (int (length xs)) s"
  have cc: "concat (map (\<lambda>p. paginatedResults xs p s) [1..?P]) = xs"
    by (rule concat_pages [OF s])
  have "sum_list (map (\<lambda>p. length (paginatedResults xs p s)) [1..?P]) =
      length (concat (map (\<lambda>p. paginatedResults xs p s) [1..?P]))"
    by (simp add: length_concat comp_def)
  then have sm: "sum_list (map (\<lambda>p. length (paginatedResults xs p s)) [1..?P]) = length xs"
    by (simp only: cc)
  have dz: "distinct (zip [0..<length xs] xs)"
    by (rule distinct_zipI1) simp
  have dj: "set (paginatedResults (zip [0..<length xs] xs) p s)
           \<inter> set (paginatedResults (zip [0..<length xs] xs) q s) = {}
       \<and> map snd (paginatedResults (zip [0..<length xs] xs) p s) = paginatedResults xs p s
       \<and> map snd (paginatedResults (zip [0..<length xs] xs) q s) = paginatedResults xs q s
       \<and> (distinct xs \<longrightarrow> set (paginatedResults xs p s) \<inter> set (paginatedResults xs q s) = {})"
    if "1 \<le> p \<and> p < q \<and> q \<le> ?P" for p q
    using that s dz by (simp add: disjoint_pages paginatedResults_positions)
  show "sum_list (map (\<lambda>p. length (paginatedResults xs p s)) [1..?P]) = length xs
   \<and> concat (map (\<lambda>p. paginatedResults xs p s) [1..?P]) = xs
   \<and> (\<forall>p q. 1 \<le> p \<and> p < q \<and> q \<le> ?P \<longrightarrow>
         set (paginatedResults (zip [0..<length xs] xs) p s)
           \<inter> set (paginatedResults (zip [0..<length xs] xs) q s) = {}
       \<and> map snd (paginatedResults (zip [0..<length xs] xs) p s) = paginatedResults xs p s
       \<and> map snd (paginatedResults (zip [0..<length xs] xs) q s) = paginatedResults xs q s
       \<and> (distinct xs \<longrightarrow> set (paginatedResults xs p s) \<inter> set (paginatedResults xs q s) = {}))"
    using sm cc dj by blast
qed

theorem pages_partition_matches_witness:
  "totalPagesOf (int (length scenarioLines)) 2 = 2
   \<and> sum_list (map (\<lambda>p. length (paginatedResults scenarioLines p 2)) [1..2])
       = length scenarioLines
   \<and> concat (map (\<lambda>p. paginatedResults scenarioLines p 2) [1..2]) = scenarioLines
   \<and> set (paginatedResults scenarioLines 1 2) \<inter> set (paginatedResults scenarioLines 2 2) = {}"
proof -
  have tp: "totalPagesOf (int (length scenarioLines)) 2 = 2" by code_simp
  have ds: "distinct scenarioLines" by code_simp
  have v: "(1::int) \<le> 2" by simp
  have pq: "(1::int) \<le> 1 \<and> (1::int) < 2 \<and> (2::int) \<le> totalPagesOf (int (length scenarioLines)) 2"
    unfolding tp by simp
  note th = pages_partition_matches [of 2 scenarioLines, THEN mp, OF v]
  have c1: "sum_list (map (\<lambda>p. length (paginatedResults scenarioLines p 2)) [1..2])
      = length scenarioLines"
    using th [THEN conjunct1] unfolding tp .
  have c2: "concat (map (\<lambda>p. paginatedResults scenarioLines p 2) [1..2]) = scenarioLines"
    using th [THEN conjunct2, THEN conjunct1] unfolding tp .
  have "distinct scenarioLines \<longrightarrow>
      set (paginatedResults scenarioLines 1 2) \<inter> set (paginatedResults scenarioLines 2 2) = {}"
    using th [THEN conjunct2, THEN conjunct2, THEN spec, THEN spec, THEN mp, OF pq]
    by (elim conjE)
  then have c3: "set (paginatedResults scenarioLines 1 2) \<inter> set (paginatedResults scenarioLines 2 2) = {}"
    using ds by (rule mp)
  show ?thesis using tp c1 c2 c3 by (intro conjI)
qed

subsection \<open>The empty search term\<close>

text \<open>
  Claim C9. The argument schema accepts the empty string as \<open>query\<close> (with the default
  page and page size, and with any page \<open>\<ge> 1\<close> and page size from 1 to 100); for the
  empty term every line matches, so \<open>totalResults\<close> of the search of a readable file is the
  number of lines the reader delivers for the file.
\<close>

theorem empty_term_matches_every_line:
  "FileSearchSchema_parse (Some (JString [])) None None = Inr ([], 1, 10)
   \<and> (1 \<le> pageNo \<and> 1 \<le> pageSz \<and> pageSz \<le> 100 \<longrightarrow>
        FileSearchSchema_parse (Some (JString [])) (Some (JInteger pageNo)) (Some (JInteger pageSz)) =
          Inr ([], pageNo, pageSz))
   \<and> scanLines lns (normalizeTerm []) =
       map (\<lambda>(n, l). \<lparr>line = l, lineNumber = n\<rparr>) (zip [1..int (length lns)] lns)
   \<and> (fs filePath = Some f \<and> readError f = None \<longrightarrow>
        (\<exists>res. searchFile fs filePath [] pageNo pageSz = Inr res
           \<and> totalResults (pagination res) = int (length (readline_lines (content f)))))"
proof -
  have n: "normalizeTerm [] = []" by (simp add: normalizeTerm_def)
  have c1: "FileSearchSchema_parse (Some (JString [])) None None = Inr ([], 1, 10)"
    by (simp add: FileSearchSchema_parse_def parse_int_field_def)
  have c2: "FileSearchSchema_parse (Some (JString [])) (Some (JInteger pageNo)) (Some (JInteger pageSz)) =
          Inr ([], pageNo, pageSz)"
    if "1 \<le> pageNo \<and> 1 \<le> pageSz \<and> pageSz \<le> 100"
    using that by (simp add: FileSearchSchema_parse_def parse_int_field_def)
  have c3: "scanLines lns (normalizeTerm []) =
       map (\<lambda>(n, l). \<lparr>line = l, lineNumber = n\<rparr>) (zip [1..int (length lns)] lns)"
    by (simp add: n scanLines_eq toLowerCase_def str_includes_empty)
  have c4: "\<exists>res. searchFile fs filePath [] pageNo pageSz = Inr res
           \<and> totalResults (pagination res) = int (length (readline_lines (content f)))"
    if "fs filePath = Some f \<and> readError f = None"
    using that by (simp add: searchFile_readable pagination_on_close n scanLines_empty_term)
  show ?thesis using c1 c2 c3 c4 by blast
qed

theorem empty_term_matches_every_line_witness:
  "FileSearchSchema_parse (Some (JString [])) (Some (JInteger 1)) (Some (JInteger 100)) =
     Inr ([], 1, 100)
   \<and> (\<exists>res. searchFile scenarioFs ''data/objtypes.txt'' [] 1 100 = Inr res
         \<and> totalResults (pagination res) = 3)"
proof -
  have v: "(1::int) \<le> 1 \<and> (1::int) \<le> 100 \<and> (100::int) \<le> 100" by simp
  have h: "scenarioFs ''data/objtypes.txt'' = Some scenarioFile \<and> readError scenarioFile = None"
    by (simp add: scenarioFs_def scenarioFile_def)
  have rl: "int (length (readline_lines (content scenarioFile))) = 3"
    by code_simp
  note th = empty_term_matches_every_line [of 1 100 "[]" scenarioFs "''data/objtypes.txt''"
      scenarioFile]
  have c1: "FileSearchSchema_parse (Some (JString [])) (Some (JInteger 1)) (Some (JInteger 100)) =
     Inr ([], 1, 100)"
    using th [THEN conjunct2, THEN conjunct1] v by (rule mp)
  have "\<exists>res. searchFile scenarioFs ''data/objtypes.txt'' [] 1 100 = Inr res
         \<and> totalResults (pagination res) = int (length (readline_lines (content scenarioFile)))"
    using th [THEN conjunct2, THEN conjunct2, THEN conjunct2] h by (rule mp)
  then have c2: "\<exists>res. searchFile scenarioFs ''data/objtypes.txt'' [] 1 100 = Inr res
         \<and> totalResults (pagination res) = 3"
    unfolding rl .
  show ?thesis using c1 c2 by (rule conjI)
qed

subsection \<open>The line count of the file details\<close>

text \<open>
  Claim C10. For a file that exists, is read without error and whose \<open>stat\<close> succeeds, the
  \<open>lineCount\<close> of \<open>getFileDetails\<close> is the number of \<open>\n\<close> characters of the content plus
  one: 1 for an empty file, and one more than for the same content without its final
  \<open>\n\<close> when the content ends with \<open>\n\<close>.
\<close>

theorem lineCount_is_newlines_plus_one:
  "fs (path_join dataDir filename) = Some f \<and> readError f = None \<and> stat f = Some st \<longrightarrow>
     getFileDetails dataDir fs filename =
       Details (st_size st) (int (count_list (content f) (CHR 0x0A)) + 1) (birthtime st) (mtime st)
   \<and> (content f = [] \<longrightarrow> lineCountOf (getFileDetails dataDir fs filename) = 1)
   \<and> (content f = c @ [CHR 0x0A] \<longrightarrow>
        lineCountOf (getFileDetails dataDir fs filename) = int (count_list c (CHR 0x0A)) + 2)"
proof (intro impI)
  assume a: "fs (path_join dataDir filename) = Some f \<and> readError f = None \<and> stat f = Some st"
  have d: "getFileDetails dataDir fs filename =
       Details (st_size st) (int (count_list (content f) (CHR 0x0A)) + 1) (birthtime st) (mtime st)"
    using a by (simp add: getFileDetails_def Let_def existsSync_def statSync_def getFileLineCount_readable)
  show "getFileDetails dataDir fs filename =
       Details (st_size st) (int (count_list (content f) (CHR 0x0A)) + 1) (birthtime st) (mtime st)
   \<and> (content f = [] \<longrightarrow> lineCountOf (getFileDetails dataDir fs filename) = 1)
   \<and> (content f = c @ [CHR 0x0A] \<longrightarrow>
        lineCountOf (getFileDetails dataDir fs filename) = int (count_list c (CHR 0x0A)) + 2)"
    unfolding d by simp
qed

theorem lineCount_is_newlines_plus_one_witness:
  "getFileDetails ''data'' scenarioFs ''objtypes.txt'' = Details 57 4 0 0
   \<and> length (readline_lines (content scenarioFile)) = 3"
proof -
  have h: "scenarioFs (path_join ''data'' ''objtypes.txt'') = Some scenarioFile
      \<and> readError scenarioFile = None
      \<and> stat scenarioFile = Some \<lparr>st_size = 57, birthtime = 0, mtime = 0\<rparr>"
    by code_simp
  have n: "int (count_list (content scenarioFile) (CHR 0x0A)) + 1 = 4"
    by code_simp
  have "getFileDetails ''data'' scenarioFs ''objtypes.txt'' =
      Details (st_size \<lparr>st_size = 57, birthtime = 0, mtime = 0\<rparr>)
        (int (count_list (content scenarioFile) (CHR 0x0A)) + 1)
        (birthtime \<lparr>st_size = 57, birthtime = 0, mtime = 0\<rparr>)
        (mtime \<lparr>st_size = 57, birthtime = 0, mtime = 0\<rparr>)"
    using lineCount_is_newlines_plus_one [of scenarioFs "''data''" "''objtypes.txt''" scenarioFile
        "\<lparr>st_size = 57, birthtime = 0, mtime = 0\<rparr>" "[]", THEN mp, OF h]
    by (rule conjunct1)
  then have c1: "getFileDetails ''data'' scenarioFs ''objtypes.txt'' = Details 57 4 0 0"
    unfolding n by simp
  have c2: "length (readline_lines (content scenarioFile)) = 3"
    by code_simp
  show ?thesis using c1 c2 by (rule conjI)
qed

end
